theory Spec2Isabelle
  imports Main "HOL-Library.Word" "HOL-Library.Sublist"
begin

section \<open>Timer (Firmware/Timer.cpp)\<close>

text \<open>
  \<^verbatim>\<open>Timer<T>\<close> is instantiated for \<^verbatim>\<open>unsigned long\<close> and \<^verbatim>\<open>unsigned short\<close>. On the
  AVR target \<^verbatim>\<open>int\<close> has 16 bits, so both instantiations compute \<^verbatim>\<open>m_started + msPeriod\<close>
  and every comparison in \<^verbatim>\<open>T\<close> itself (32 and 16 bits): the sum wraps at the width of \<^verbatim>\<open>T\<close>.
  The width is the type parameter \<open>'a\<close> of the word type.

  The two members of the class are the fields of the record. Each member function reads the
  millisecond counter \<^verbatim>\<open>_millis()\<close> at most once; the value read, converted to \<^verbatim>\<open>T\<close>, is the
  argument \<open>millis\<close> of the model. A member function returns its C++ result together with
  the object after the call.
\<close>

record (overloaded) ('a::len) timer =
  m_started :: "'a word"
  m_isRunning :: bool

definition start :: "'a::len timer \<Rightarrow> 'a word \<Rightarrow> 'a timer" where
  "start t millis = t\<lparr>m_started := millis, m_isRunning := True\<rparr>"

definition expired :: "'a::len timer \<Rightarrow> 'a word \<Rightarrow> 'a word \<Rightarrow> bool \<times> 'a timer" where
  "expired t millis msPeriod =
     (if \<not> m_isRunning t then (False, t)
      else
        let now = millis;
            expired =
              (if m_started t \<le> m_started t + msPeriod
               then (now \<ge> m_started t + msPeriod) \<or> (now < m_started t)
               else (now \<ge> m_started t + msPeriod) \<and> (now < m_started t))
        in (expired, if expired then t\<lparr>m_isRunning := False\<rparr> else t))"

text \<open>
  \<^verbatim>\<open>elapsed\<close> subtracts \<^verbatim>\<open>m_started\<close> from the counter reading and returns the difference
  as a \<^verbatim>\<open>T\<close>, so the difference is taken modulo the width of \<^verbatim>\<open>T\<close>.
\<close>

definition elapsed :: "'a::len timer \<Rightarrow> 'a word \<Rightarrow> 'a word \<times> 'a timer" where
  "elapsed t millis = (if m_isRunning t then millis - m_started t else 0, t)"

definition expired_cont :: "'a::len timer \<Rightarrow> 'a word \<Rightarrow> 'a word \<Rightarrow> bool \<times> 'a timer" where
  "expired_cont t millis msPeriod =
     (if \<not> m_isRunning t then (True, t) else expired t millis msPeriod)"

text \<open>
  A run of \<^verbatim>\<open>expired\<close> calls on one timer with no \<^verbatim>\<open>start\<close> between them: each call has
  its own counter reading and its own period; the results are collected in call order.
\<close>

fun expired_calls :: "'a::len timer \<Rightarrow> ('a word \<times> 'a word) list \<Rightarrow> bool list \<times> 'a timer" where
  "expired_calls t [] = ([], t)"
| "expired_calls t ((millis, msPeriod) # cs) =
     (let (r, t') = expired t millis msPeriod;
          (rs, t'') = expired_calls t' cs
      in (r # rs, t''))"

section \<open>Ring buffer (rbuf.h, used by Firmware/uart2.cpp)\<close>

type_synonym byte = "8 word"

datatype rbuf_error = BufferFull | ConfigurationError

text \<open>
  Modelled from the spec: the ring buffer type behind \<^verbatim>\<open>rbuf.h\<close>, whose source is not part of
  the files at hand. The spec gives it a backing storage of fixed capacity, a write position and
  a read position, both indices into the storage, and a reserve of at least one slot kept
  empty to tell a full buffer from an empty one.
\<close>

record rbuf =
  rb_l :: nat
  rb_w :: nat
  rb_r :: nat
  rb_data :: "byte list"

text \<open>
  Modelled from the spec: the reserve slack, not given a value by the files at hand. The spec's
  full test ("advancing the write position by one would equal the read position") fixes it
  to one slot.
\<close>

definition rbuf_reserve :: nat where
  "rbuf_reserve = 1"

text \<open>
  Modelled from the spec: \<^verbatim>\<open>rbuf_ini\<close>, missing from the files at hand. It resets both positions
  to the same value and fails on a capacity below the reserve plus one.
\<close>

definition rbuf_ini :: "nat \<Rightarrow> rbuf_error + rbuf" where
  "rbuf_ini l =
     (if l < rbuf_reserve + 1 then Inl ConfigurationError
      else Inr \<lparr>rb_l = l, rb_w = 0, rb_r = 0, rb_data = replicate l 0\<rparr>)"

text \<open>
  Modelled from the spec: \<^verbatim>\<open>rbuf_empty\<close>, missing from the files at hand: true iff the read
  position equals the write position.
\<close>

definition rbuf_empty :: "rbuf \<Rightarrow> bool" where
  "rbuf_empty rb = (rb_r rb = rb_w rb)"

text \<open>
  Modelled from the spec: \<^verbatim>\<open>rbuf_put\<close>, missing from the files at hand. On a full buffer it
  returns the Full error and mutates nothing; otherwise it stores the byte at the write
  position and advances the write position modulo the capacity.
\<close>

definition rbuf_put :: "rbuf \<Rightarrow> byte \<Rightarrow> (rbuf_error + unit) \<times> rbuf" where
  "rbuf_put rb b =
     (if (rb_w rb + rbuf_reserve) mod rb_l rb = rb_r rb then (Inl BufferFull, rb)
      else (Inr (), rb\<lparr>rb_data := (rb_data rb)[rb_w rb := b],
                        rb_w := (rb_w rb + 1) mod rb_l rb\<rparr>))"

text \<open>
  Modelled from the spec: \<^verbatim>\<open>rbuf_get\<close>, missing from the files at hand. It returns nothing on
  an empty buffer; otherwise it returns the byte at the read position and advances the read
  position modulo the capacity.
\<close>

definition rbuf_get :: "rbuf \<Rightarrow> byte option \<times> rbuf" where
  "rbuf_get rb =
     (if rbuf_empty rb then (None, rb)
      else (Some (rb_data rb ! rb_r rb), rb\<lparr>rb_r := (rb_r rb + 1) mod rb_l rb\<rparr>))"

text \<open>
  The representation invariant of a buffer made by \<^verbatim>\<open>rbuf_ini\<close>, the number of bytes it
  holds, and the bytes themselves, oldest first: the slots from the read position up to the
  write position, around the end of the storage.
\<close>

definition rbuf_wf :: "rbuf \<Rightarrow> bool" where
  "rbuf_wf rb = (0 < rb_l rb \<and> length (rb_data rb) = rb_l rb \<and> rb_w rb < rb_l rb \<and> rb_r rb < rb_l rb)"

definition rbuf_count :: "rbuf \<Rightarrow> nat" where
  "rbuf_count rb = (if rb_r rb \<le> rb_w rb then rb_w rb - rb_r rb else rb_l rb - rb_r rb + rb_w rb)"

definition rbuf_contents :: "rbuf \<Rightarrow> byte list" where
  "rbuf_contents rb = map (\<lambda>i. rb_data rb ! ((rb_r rb + i) mod rb_l rb)) [0..<rbuf_count rb]"

text \<open>
  A run of producer and consumer calls on one buffer. Each call is recorded with its result
  and with what \<^verbatim>\<open>rbuf_empty\<close> says right after it.
\<close>

datatype rbuf_call = Put byte | Get

datatype rbuf_result = PutResult "rbuf_error + unit" | GetResult "byte option"

fun rbuf_run :: "rbuf \<Rightarrow> rbuf_call list \<Rightarrow> (rbuf_result \<times> bool) list" where
  "rbuf_run rb [] = []"
| "rbuf_run rb (Put b # cs) =
     (let (res, rb') = rbuf_put rb b in (PutResult res, rbuf_empty rb') # rbuf_run rb' cs)"
| "rbuf_run rb (Get # cs) =
     (let (res, rb') = rbuf_get rb in (GetResult res, rbuf_empty rb') # rbuf_run rb' cs)"

text \<open>
  The reference the ring buffer is compared with: a first-in first-out queue of at most \<open>U\<close>
  bytes, as a list with the oldest byte at the head. A put on a queue of \<open>U\<close> bytes is
  rejected and drops that byte only; a get takes the head. The recorded flag says whether
  the queue is empty after the call.
\<close>

fun fifo_run :: "nat \<Rightarrow> byte list \<Rightarrow> rbuf_call list \<Rightarrow> (rbuf_result \<times> bool) list" where
  "fifo_run U q [] = []"
| "fifo_run U q (Put b # cs) =
     (if length q < U then (PutResult (Inr ()), False) # fifo_run U (q @ [b]) cs
      else (PutResult (Inl BufferFull), q = []) # fifo_run U q cs)"
| "fifo_run U q (Get # cs) =
     (case q of
        [] \<Rightarrow> (GetResult None, True) # fifo_run U [] cs
      | b # q' \<Rightarrow> (GetResult (Some b), q' = []) # fifo_run U q' cs)"

text \<open>
  The bytes a run offers to the buffer, in call order, and the bytes its gets return.
\<close>

fun offered :: "rbuf_call list \<Rightarrow> byte list" where
  "offered [] = []"
| "offered (Put b # cs) = b # offered cs"
| "offered (Get # cs) = offered cs"

fun delivered :: "(rbuf_result \<times> bool) list \<Rightarrow> byte list" where
  "delivered [] = []"
| "delivered ((GetResult (Some b), e) # rs) = b # delivered rs"
| "delivered (r # rs) = delivered rs"

section \<open>Serial channel (Firmware/uart2.cpp)\<close>

text \<open>
  The state the functions of \<^verbatim>\<open>uart2.cpp\<close> work on: the inbound ring buffer \<^verbatim>\<open>uart2_ibuf\<close>,
  the lines written to the standard output by \<^verbatim>\<open>puts_P\<close>, and the bytes written to the
  transmit register \<^verbatim>\<open>UDR2\<close>, each with the number of the status poll it followed.
\<close>

record uart2 =
  uart2_ibuf :: rbuf
  stdout :: "string list"
  udr2_tx :: "(nat \<times> byte) list"

text \<open>
  \<^verbatim>\<open>uart2_init\<close> hands \<^verbatim>\<open>rbuf_ini\<close> the size of the 20-byte array less 4; the register
  setup is outside the model.
\<close>

definition uart2_init :: "rbuf_error + uart2" where
  "uart2_init =
     (case rbuf_ini (20 - 4) of
        Inl e \<Rightarrow> Inl e
      | Inr rb \<Rightarrow> Inr \<lparr>uart2_ibuf = rb, stdout = [], udr2_tx = []\<rparr>)"

text \<open>
  \<^verbatim>\<open>while (!uart2_txready);\<close> reads the status register until the data-register-empty bit
  is set. \<open>txready n\<close> is what the \<open>n\<close>-th read of the bit shows; the loop returns the number
  of the first read that shows it set, and does not return when no read does.
\<close>

partial_function (option) wait_txready :: "(nat \<Rightarrow> bool) \<Rightarrow> nat \<Rightarrow> nat option" where
  "wait_txready txready n = (if \<not> txready n then wait_txready txready (Suc n) else Some n)"

definition uart2_putchar :: "(nat \<Rightarrow> bool) \<Rightarrow> byte \<Rightarrow> uart2 \<Rightarrow> (int \<times> uart2) option" where
  "uart2_putchar txready c s =
     (case wait_txready txready 0 of
        None \<Rightarrow> None
      | Some n \<Rightarrow> Some (0, s\<lparr>udr2_tx := udr2_tx s @ [(n, c)]\<rparr>))"

text \<open>
  \<^verbatim>\<open>uart2_getchar\<close> returns a C \<^verbatim>\<open>int\<close>: \<open>-1\<close> for nothing, else what \<^verbatim>\<open>rbuf_get\<close> returns,
  a byte as a value from 0 to 255.
\<close>

definition uart2_getchar :: "uart2 \<Rightarrow> int \<times> uart2" where
  "uart2_getchar s =
     (if rbuf_empty (uart2_ibuf s) then (-1, s)
      else
        let (res, rb') = rbuf_get (uart2_ibuf s)
        in (case res of None \<Rightarrow> -1 | Some b \<Rightarrow> uint b, s\<lparr>uart2_ibuf := rb'\<rparr>))"

text \<open>
  The receive interrupt: \<open>udr2\<close> is the byte read from the receive register. A negative
  return of \<^verbatim>\<open>rbuf_put\<close> is its error result.
\<close>

definition USART2_RX_vect :: "uart2 \<Rightarrow> byte \<Rightarrow> uart2" where
  "USART2_RX_vect s udr2 =
     (let (res, rb') = rbuf_put (uart2_ibuf s) udr2
      in (case res of
            Inl e \<Rightarrow> s\<lparr>uart2_ibuf := rb', stdout := stdout s @ [''USART2 rx Full!!!'']\<rparr>
          | Inr u \<Rightarrow> s\<lparr>uart2_ibuf := rb'\<rparr>))"

section \<open>Properties of the timer\<close>

lemma expired_arith:
  fixes s p n N :: nat
  assumes "s < N" "p < N" "n < N"
  shows "(if s \<le> (s + p) mod N then (s + p) mod N \<le> n \<or> n < s else (s + p) mod N \<le> n \<and> n < s)
       = (p \<le> (if s \<le> n then n - s else n + N - s))"
proof (cases "s + p < N")
  case True
  then have "(s + p) mod N = s + p" by simp
  then show ?thesis using assms True by auto
next
  case False
  then have "(s + p) mod N = s + p - N" using assms
    by (simp add: mod_if)
  then show ?thesis using assms False by auto
qed

lemma expired_fst:
  "fst (expired t millis msPeriod) = (m_isRunning t \<and> msPeriod \<le> millis - m_started t)"
proof (cases "m_isRunning t")
  case False
  then show ?thesis by (simp add: expired_def)
next
  case True
  let ?s = "m_started t"
  let ?N = "2 ^ LENGTH('a) :: nat"
  have b: "unat ?s < ?N" "unat msPeriod < ?N" "unat millis < ?N"
    by simp_all
  have sub: "unat (millis - ?s) =
      (if unat ?s \<le> unat millis then unat millis - unat ?s else unat millis + ?N - unat ?s)"
    by (simp add: unat_sub_if')
  have add: "unat (?s + msPeriod) = (unat ?s + unat msPeriod) mod ?N"
    by (simp add: unat_word_ariths)
  have "fst (expired t millis msPeriod) =
      (if ?s \<le> ?s + msPeriod then ?s + msPeriod \<le> millis \<or> millis < ?s
       else ?s + msPeriod \<le> millis \<and> millis < ?s)"
    using True by (simp add: expired_def Let_def)
  also have "\<dots> =
      (if unat ?s \<le> (unat ?s + unat msPeriod) mod ?N
       then (unat ?s + unat msPeriod) mod ?N \<le> unat millis \<or> unat millis < unat ?s
       else (unat ?s + unat msPeriod) mod ?N \<le> unat millis \<and> unat millis < unat ?s)"
    by (simp only: word_le_nat_alt word_less_nat_alt add)
  also have "\<dots> =
      (unat msPeriod \<le>
        (if unat ?s \<le> unat millis then unat millis - unat ?s else unat millis + ?N - unat ?s))"
    by (rule expired_arith [OF b])
  also have "\<dots> = (msPeriod \<le> millis - ?s)"
    by (simp only: word_le_nat_alt sub)
  finally show ?thesis using True by simp
qed


lemma expired_snd:
  "snd (expired t millis msPeriod) =
     (if fst (expired t millis msPeriod) then t\<lparr>m_isRunning := False\<rparr> else t)"
  by (simp add: expired_def Let_def)

lemma expired_calls_idle:
  "\<not> m_isRunning t \<Longrightarrow> expired_calls t cs = (replicate (length cs) False, t)"
proof (induction cs)
  case Nil
  show ?case by simp
next
  case (Cons c cs)
  obtain millis msPeriod where c: "c = (millis, msPeriod)" by (cases c)
  have "expired t millis msPeriod = (False, t)"
    using Cons.prems by (simp add: expired_def)
  then show ?case using Cons c by simp
qed

lemma expired_calls_count:
  "length (filter (\<lambda>r. r) (fst (expired_calls t cs))) \<le> 1"
proof (induction cs arbitrary: t)
  case Nil
  show ?case by simp
next
  case (Cons c cs)
  obtain millis msPeriod where c: "c = (millis, msPeriod)" by (cases c)
  obtain r t' where e: "expired t millis msPeriod = (r, t')" by (cases "expired t millis msPeriod")
  obtain rs t'' where rest: "expired_calls t' cs = (rs, t'')" by (cases "expired_calls t' cs")
  have all: "fst (expired_calls t (c # cs)) = r # rs"
    using c e rest by simp
  show ?case
  proof (cases r)
    case True
    then have "t' = t\<lparr>m_isRunning := False\<rparr>"
      using expired_snd [of t millis msPeriod] e by simp
    then have "\<not> m_isRunning t'" by simp
    then have "rs = replicate (length cs) False"
      using expired_calls_idle [of t' cs] rest by simp
    then have "filter (\<lambda>r. r) rs = []" by simp
    then show ?thesis using all True by simp
  next
    case False
    have "length (filter (\<lambda>r. r) rs) \<le> 1"
      using Cons.IH [of t'] rest by simp
    then show ?thesis using all False by simp
  qed
qed

lemma word_pred_less:
  assumes "(p :: 'a::len word) \<noteq> 0"
  shows "\<not> p \<le> p - 1"
proof -
  have "0 < unat p" using assms by (simp add: unat_gt_0)
  then show ?thesis using assms by (simp add: word_le_nat_alt unat_minus_one)
qed

text \<open>
  Claim C1, as amended. For every timer state, counter reading and period, \<^verbatim>\<open>expired\<close>
  returns true exactly when the timer is running and the forward distance
  \<open>millis - m_started\<close>, subtracted in the width of \<^verbatim>\<open>T\<close>, has reached the period. A running
  timer queried at \<open>m_started + p\<close> is expired; queried one tick earlier, at
  \<open>m_started + p - 1\<close>, it is not expired provided the period is at least 1. The 16-bit timer
  started at 65530 with period 10 is expired at the counter value 4 and not at 3.
\<close>

theorem expired_iff_forward_distance:
  "(fst (expired t millis p) = (m_isRunning t \<and> p \<le> millis - m_started t))
   \<and> (m_isRunning t \<and> p \<noteq> 0 \<longrightarrow> \<not> fst (expired t (m_started t + p - 1) p))
   \<and> (m_isRunning t \<longrightarrow> fst (expired t (m_started t + p) p))
   \<and> fst (expired \<lparr>m_started = 65530 :: 16 word, m_isRunning = True\<rparr> 4 10)
   \<and> \<not> fst (expired \<lparr>m_started = 65530 :: 16 word, m_isRunning = True\<rparr> 3 10)"
proof -
  have "m_started t + p - 1 - m_started t = p - 1" by simp
  then have a: "p \<noteq> 0 \<Longrightarrow> \<not> p \<le> m_started t + p - 1 - m_started t"
    using word_pred_less [of p] by simp
  have b: "p \<le> m_started t + p - m_started t" by simp
  show ?thesis
    unfolding expired_fst using a b by simp
qed

text \<open>
  The 16-bit timer started at 65530 with period 10 satisfies both hypotheses; its boundary
  \<open>65530 + 10\<close> is the post-wrap counter value 4.
\<close>

theorem expired_iff_forward_distance_witness:
  "m_isRunning \<lparr>m_started = 65530 :: 16 word, m_isRunning = True\<rparr>
   \<and> (10 :: 16 word) \<noteq> 0
   \<and> \<not> fst (expired \<lparr>m_started = 65530 :: 16 word, m_isRunning = True\<rparr> (65530 + 10 - 1) 10)
   \<and> fst (expired \<lparr>m_started = 65530 :: 16 word, m_isRunning = True\<rparr> (65530 + 10) 10)
   \<and> (65530 + 10 :: 16 word) = 4"
  using expired_iff_forward_distance [of "\<lparr>m_started = 65530 :: 16 word, m_isRunning = True\<rparr>" 4 10]
  by simp

text \<open>
  Claim C1 as stated also promises "not expired" at \<open>m_started + p - 1\<close> for the period 0.
  There the queried counter value is \<open>m_started - 1\<close>, whose forward distance from
  \<open>m_started\<close> is the largest value of \<^verbatim>\<open>T\<close>: the first branch of \<^verbatim>\<open>expired\<close> is taken
  (\<open>m_started \<le> m_started + 0\<close>) and \<open>now < m_started\<close> reports the timer expired.
\<close>

theorem expired_before_start_counterexample:
  "m_isRunning \<lparr>m_started = 5 :: 16 word, m_isRunning = True\<rparr>
   \<and> fst (expired \<lparr>m_started = 5 :: 16 word, m_isRunning = True\<rparr> (5 + 0 - 1) 0)"
  by (simp add: expired_def)

text \<open>
  Claim C2. In any run of \<^verbatim>\<open>expired\<close> calls on one timer with no \<^verbatim>\<open>start\<close> between them,
  whatever the counter readings and periods, at most one call returns true. The call that
  returns true leaves the timer not running, and every later call of the run returns false.
\<close>

theorem expired_edge_triggered:
  "length (filter (\<lambda>r. r) (fst (expired_calls t cs))) \<le> 1
   \<and> (fst (expired t millis p) \<longrightarrow>
        \<not> m_isRunning (snd (expired t millis p))
        \<and> fst (expired_calls (snd (expired t millis p)) cs) = replicate (length cs) False)"
proof -
  have "fst (expired_calls (snd (expired t millis p)) cs) = replicate (length cs) False"
    if "fst (expired t millis p)"
    using that expired_calls_idle [of "snd (expired t millis p)" cs]
    by (simp add: expired_snd)
  then show ?thesis
    using expired_calls_count [of t cs] by (simp add: expired_snd)
qed

text \<open>
  A 16-bit timer started at 100 and polled with period 10 at 105, 110, 111 and 120: only the
  poll at 110 reports expiry.
\<close>

theorem expired_edge_triggered_witness:
  "fst (expired (start \<lparr>m_started = 0 :: 16 word, m_isRunning = False\<rparr> 100) 110 10)
   \<and> fst (expired_calls (start \<lparr>m_started = 0 :: 16 word, m_isRunning = False\<rparr> 100)
            [(105, 10), (110, 10), (111, 10), (120, 10)]) = [False, True, False, False]
   \<and> fst (expired_calls (snd (expired (start \<lparr>m_started = 0 :: 16 word, m_isRunning = False\<rparr> 100) 110 10))
            [(111, 10), (120, 10)]) = [False, False]"
  using expired_edge_triggered [of "start \<lparr>m_started = 0 :: 16 word, m_isRunning = False\<rparr> 100" "[(111, 10), (120, 10)]" 110 10]
  by (simp add: expired_def start_def)

text \<open>
  Claim C7. \<^verbatim>\<open>expired_cont\<close> returns true exactly when the timer is not running or
  \<^verbatim>\<open>expired\<close> returns true for the same counter reading and period, and it leaves the timer
  in the state that \<^verbatim>\<open>expired\<close> leaves it in.
\<close>

theorem expired_cont_level_triggered:
  "fst (expired_cont t millis p) = (\<not> m_isRunning t \<or> fst (expired t millis p))
   \<and> snd (expired_cont t millis p) = snd (expired t millis p)"
  by (simp add: expired_cont_def expired_def)

text \<open>
  A 32-bit timer: not running (\<^verbatim>\<open>expired_cont\<close> true, \<^verbatim>\<open>expired\<close> false), running before the
  period has passed, and running at the boundary.
\<close>

theorem expired_cont_level_triggered_witness:
  "fst (expired_cont \<lparr>m_started = 7 :: 32 word, m_isRunning = False\<rparr> 8 100)
   \<and> \<not> fst (expired \<lparr>m_started = 7 :: 32 word, m_isRunning = False\<rparr> 8 100)
   \<and> \<not> fst (expired_cont \<lparr>m_started = 7 :: 32 word, m_isRunning = True\<rparr> 8 100)
   \<and> fst (expired_cont \<lparr>m_started = 7 :: 32 word, m_isRunning = True\<rparr> 107 100)
   \<and> snd (expired_cont \<lparr>m_started = 7 :: 32 word, m_isRunning = True\<rparr> 107 100)
       = \<lparr>m_started = 7, m_isRunning = False\<rparr>"
  using expired_cont_level_triggered [of "\<lparr>m_started = 7 :: 32 word, m_isRunning = False\<rparr>" 8 100]
    expired_cont_level_triggered [of "\<lparr>m_started = 7 :: 32 word, m_isRunning = True\<rparr>" 8 100]
    expired_cont_level_triggered [of "\<lparr>m_started = 7 :: 32 word, m_isRunning = True\<rparr>" 107 100]
  by (simp add: expired_def)

text \<open>
  Claim C8. \<^verbatim>\<open>elapsed\<close> returns 0 for a timer that is not running; for a running timer it
  returns \<open>millis - m_started\<close> in the width of \<^verbatim>\<open>T\<close>, which is the forward distance also
  when the counter has wrapped, and no period enters the result: five ticks after \<^verbatim>\<open>start\<close>
  it returns 5. The timer is the same after the call.
\<close>

theorem elapsed_forward_distance:
  fixes t :: "'a::len timer"
  shows "(\<not> m_isRunning t \<longrightarrow> fst (elapsed t millis) = 0)
   \<and> (m_isRunning t \<longrightarrow>
        fst (elapsed t millis) = millis - m_started t
        \<and> unat (fst (elapsed t millis)) =
            (if unat (m_started t) \<le> unat millis then unat millis - unat (m_started t)
             else unat millis + 2 ^ LENGTH('a) - unat (m_started t)))
   \<and> fst (elapsed (start t now0) (now0 + 5)) = 5
   \<and> snd (elapsed t millis) = t"
  by (simp add: elapsed_def start_def unat_sub_if')

text \<open>
  The 16-bit timer with \<open>m_started = 65530\<close> read at the post-wrap counter value 4, not
  running and running.
\<close>

theorem elapsed_forward_distance_witness:
  "fst (elapsed \<lparr>m_started = 65530 :: 16 word, m_isRunning = False\<rparr> 4) = 0
   \<and> fst (elapsed \<lparr>m_started = 65530 :: 16 word, m_isRunning = True\<rparr> 4) = 10
   \<and> snd (elapsed \<lparr>m_started = 65530 :: 16 word, m_isRunning = True\<rparr> 4)
       = \<lparr>m_started = 65530, m_isRunning = True\<rparr>"
  using elapsed_forward_distance [of "\<lparr>m_started = 65530 :: 16 word, m_isRunning = False\<rparr>" 4 0]
    elapsed_forward_distance [of "\<lparr>m_started = 65530 :: 16 word, m_isRunning = True\<rparr>" 4 0]
  by simp

text \<open>
  Claim C9. After \<^verbatim>\<open>start\<close> at any counter value, the first \<^verbatim>\<open>expired(0)\<close> returns true at
  any counter reading, the unchanged one included, and a second \<^verbatim>\<open>expired(0)\<close> with no
  \<^verbatim>\<open>start\<close> in between returns false.
\<close>

theorem expired_zero_period:
  "fst (expired (start t now0) now1 0)
   \<and> \<not> fst (expired (snd (expired (start t now0) now1 0)) now2 0)"
  by (simp add: expired_fst expired_snd start_def)

text \<open>
  Start and both checks at the same counter value 9.
\<close>

theorem expired_zero_period_witness:
  "fst (expired (start \<lparr>m_started = 0 :: 16 word, m_isRunning = False\<rparr> 9) 9 0)
   \<and> \<not> fst (expired (snd (expired (start \<lparr>m_started = 0 :: 16 word, m_isRunning = False\<rparr> 9) 9 0)) 9 0)"
  using expired_zero_period [of "\<lparr>m_started = 0 :: 16 word, m_isRunning = False\<rparr>" 9 9 9]
  by simp

text \<open>
  Claim C10. A call of \<^verbatim>\<open>expired\<close> that returns false leaves the timer as it was. A call
  that returns true was made on a running timer and changes nothing but \<open>m_isRunning\<close>, which
  it clears. \<open>m_started\<close> is never changed.
\<close>

theorem expired_frame:
  "(\<not> fst (expired t millis p) \<longrightarrow> snd (expired t millis p) = t)
   \<and> (fst (expired t millis p) \<longrightarrow>
        m_isRunning t \<and> snd (expired t millis p) = t\<lparr>m_isRunning := False\<rparr>)
   \<and> m_started (snd (expired t millis p)) = m_started t"
  by (simp add: expired_snd expired_fst)

text \<open>
  A 16-bit timer started at 100 with period 10, polled at 105 (false) and at 110 (true).
\<close>

theorem expired_frame_witness:
  "\<not> fst (expired \<lparr>m_started = 100 :: 16 word, m_isRunning = True\<rparr> 105 10)
   \<and> snd (expired \<lparr>m_started = 100 :: 16 word, m_isRunning = True\<rparr> 105 10)
       = \<lparr>m_started = 100, m_isRunning = True\<rparr>
   \<and> fst (expired \<lparr>m_started = 100 :: 16 word, m_isRunning = True\<rparr> 110 10)
   \<and> snd (expired \<lparr>m_started = 100 :: 16 word, m_isRunning = True\<rparr> 110 10)
       = \<lparr>m_started = 100, m_isRunning = False\<rparr>"
  using expired_frame [of "\<lparr>m_started = 100 :: 16 word, m_isRunning = True\<rparr>" 105 10]
    expired_frame [of "\<lparr>m_started = 100 :: 16 word, m_isRunning = True\<rparr>" 110 10]
  by (simp add: expired_def)

section \<open>Properties of the ring buffer\<close>

lemma mod_twice: "x < 2 * l \<Longrightarrow> (x::nat) mod l = (if x < l then x else x - l)"
  by (simp add: mod_if)

lemma rbuf_count_bound: "rbuf_wf rb \<Longrightarrow> rbuf_count rb < rb_l rb"
  by (auto simp: rbuf_wf_def rbuf_count_def)

lemma rbuf_slot_write: "rbuf_wf rb \<Longrightarrow> (rb_r rb + rbuf_count rb) mod rb_l rb = rb_w rb"
  by (auto simp: rbuf_wf_def rbuf_count_def mod_twice)

lemma rbuf_slot_stored:
  "rbuf_wf rb \<Longrightarrow> i < rbuf_count rb \<Longrightarrow> (rb_r rb + i) mod rb_l rb \<noteq> rb_w rb"
  by (auto simp: rbuf_wf_def rbuf_count_def mod_twice split: if_splits)

lemma rbuf_empty_contents: "rbuf_wf rb \<Longrightarrow> rbuf_empty rb = (rbuf_contents rb = [])"
  by (auto simp: rbuf_wf_def rbuf_empty_def rbuf_contents_def rbuf_count_def)

lemma rbuf_length_contents: "length (rbuf_contents rb) = rbuf_count rb"
  by (simp add: rbuf_contents_def)

lemma rbuf_full_count:
  "rbuf_wf rb \<Longrightarrow> ((rb_w rb + rbuf_reserve) mod rb_l rb = rb_r rb) = (rbuf_count rb = rb_l rb - 1)"
  by (auto simp: rbuf_wf_def rbuf_count_def rbuf_reserve_def mod_twice split: if_splits)

lemma rbuf_put_full:
  "rbuf_wf rb \<Longrightarrow> rbuf_count rb = rb_l rb - 1 \<Longrightarrow> rbuf_put rb b = (Inl BufferFull, rb)"
  by (simp add: rbuf_put_def rbuf_full_count)

lemma rbuf_put_stored:
  assumes wf: "rbuf_wf rb" and room: "rbuf_count rb \<noteq> rb_l rb - 1"
  shows "\<exists>rb'. rbuf_put rb b = (Inr (), rb') \<and> rbuf_wf rb'
           \<and> rbuf_contents rb' = rbuf_contents rb @ [b]"
proof -
  let ?rb' = "rb\<lparr>rb_data := (rb_data rb)[rb_w rb := b], rb_w := Suc (rb_w rb) mod rb_l rb\<rparr>"
  have put: "rbuf_put rb b = (Inr (), ?rb')"
    using wf room by (simp add: rbuf_put_def rbuf_full_count)
  have wf': "rbuf_wf ?rb'"
    using wf by (simp add: rbuf_wf_def)
  have cnt: "rbuf_count ?rb' = Suc (rbuf_count rb)"
    using wf room by (auto simp: rbuf_wf_def rbuf_count_def mod_twice split: if_splits)
  have old: "(rb_data rb)[rb_w rb := b] ! ((rb_r rb + i) mod rb_l rb)
               = rb_data rb ! ((rb_r rb + i) mod rb_l rb)" if "i < rbuf_count rb" for i
    using rbuf_slot_stored [OF wf that] by simp
  have new: "(rb_data rb)[rb_w rb := b] ! ((rb_r rb + rbuf_count rb) mod rb_l rb) = b"
    using wf rbuf_slot_write [OF wf] by (simp add: rbuf_wf_def)
  have "rbuf_contents ?rb' = rbuf_contents rb @ [b]"
    using old new by (simp add: rbuf_contents_def cnt)
  then show ?thesis using put wf' by blast
qed

lemma rbuf_get_empty: "rbuf_empty rb \<Longrightarrow> rbuf_get rb = (None, rb)"
  by (simp add: rbuf_get_def)

lemma rbuf_get_oldest:
  assumes wf: "rbuf_wf rb" and ne: "\<not> rbuf_empty rb"
  shows "\<exists>rb'. rbuf_get rb = (Some (hd (rbuf_contents rb)), rb') \<and> rbuf_wf rb'
           \<and> rb_r rb' = (rb_r rb + 1) mod rb_l rb
           \<and> rbuf_contents rb' = tl (rbuf_contents rb)"
proof -
  let ?rb' = "rb\<lparr>rb_r := Suc (rb_r rb) mod rb_l rb\<rparr>"
  have pos: "0 < rbuf_count rb"
    using wf ne by (auto simp: rbuf_wf_def rbuf_empty_def rbuf_count_def)
  have upt: "[0..<rbuf_count rb] = 0 # map Suc [0..<rbuf_count rb - 1]"
    using pos by (metis One_nat_def Suc_pred map_Suc_upt upt_conv_Cons)
  have eq: "rbuf_contents rb
      = rb_data rb ! rb_r rb # map (\<lambda>i. rb_data rb ! ((rb_r rb + Suc i) mod rb_l rb)) [0..<rbuf_count rb - 1]"
    unfolding rbuf_contents_def
    using wf by (subst upt) (simp add: rbuf_wf_def comp_def)
  have get: "rbuf_get rb = (Some (rb_data rb ! rb_r rb), ?rb')"
    using ne by (simp add: rbuf_get_def)
  have wf': "rbuf_wf ?rb'"
    using wf by (simp add: rbuf_wf_def)
  have cnt: "rbuf_count ?rb' = rbuf_count rb - 1"
    using wf ne by (auto simp: rbuf_wf_def rbuf_empty_def rbuf_count_def mod_twice split: if_splits)
  have idx: "(Suc (rb_r rb) mod rb_l rb + i) mod rb_l rb = Suc (rb_r rb + i) mod rb_l rb" for i
    by (simp add: mod_add_left_eq)
  have "rbuf_contents ?rb' = tl (rbuf_contents rb)"
    unfolding eq by (simp add: rbuf_contents_def cnt idx)
  then show ?thesis using get wf' eq by simp
qed

lemma rbuf_refines_fifo:
  "rbuf_wf rb \<Longrightarrow> rbuf_run rb cs = fifo_run (rb_l rb - 1) (rbuf_contents rb) cs"
proof (induction cs arbitrary: rb)
  case Nil
  show ?case by simp
next
  case (Cons c cs)
  show ?case
  proof (cases c)
    case (Put b)
    show ?thesis
    proof (cases "rbuf_count rb = rb_l rb - 1")
      case True
      then show ?thesis
        using Cons Put rbuf_put_full [OF Cons.prems True, of b]
        by (simp add: rbuf_length_contents rbuf_empty_contents)
    next
      case False
      then obtain rb' where p: "rbuf_put rb b = (Inr (), rb')" "rbuf_wf rb'"
          "rbuf_contents rb' = rbuf_contents rb @ [b]"
        using rbuf_put_stored [OF Cons.prems False, of b] by blast
      have l: "rb_l rb' = rb_l rb"
        using p(1) by (auto simp: rbuf_put_def split: if_splits)
      have lt: "rbuf_count rb < rb_l rb - 1"
        using False rbuf_count_bound [OF Cons.prems] by simp
      show ?thesis
        using Cons.IH [OF p(2)] Put p l lt
        by (simp add: rbuf_length_contents rbuf_empty_contents)
    qed
  next
    case Get
    show ?thesis
    proof (cases "rbuf_empty rb")
      case True
      then show ?thesis
        using Cons Get rbuf_get_empty [OF True] rbuf_empty_contents [OF Cons.prems]
        by simp
    next
      case False
      then obtain rb' where g: "rbuf_get rb = (Some (hd (rbuf_contents rb)), rb')" "rbuf_wf rb'"
          "rbuf_contents rb' = tl (rbuf_contents rb)"
        using rbuf_get_oldest [OF Cons.prems False] by blast
      have l: "rb_l rb' = rb_l rb"
        using g(1) by (auto simp: rbuf_get_def split: if_splits)
      obtain x xs where q: "rbuf_contents rb = x # xs"
        using False rbuf_empty_contents [OF Cons.prems] by (cases "rbuf_contents rb") auto
      show ?thesis
        using Cons.IH [OF g(2)] Get g l q
        by (simp add: rbuf_empty_contents)
    qed
  qed
qed

lemma rbuf_ini_wf: "rbuf_ini l = Inr rb \<Longrightarrow> rbuf_wf rb \<and> rb_l rb = l \<and> rbuf_contents rb = [] \<and> rbuf_empty rb"
  by (auto simp: rbuf_ini_def rbuf_wf_def rbuf_contents_def rbuf_count_def rbuf_empty_def rbuf_reserve_def split: if_splits)


lemma fifo_fill:
  "map fst (fifo_run U q (map Put bs @ cs)) =
     replicate (min (length bs) (U - length q)) (PutResult (Inr ()))
     @ replicate (length bs - (U - length q)) (PutResult (Inl BufferFull))
     @ map fst (fifo_run U (q @ take (U - length q) bs) cs)"
proof (induction bs arbitrary: q)
  case Nil
  show ?case by simp
next
  case (Cons b bs)
  show ?case
  proof (cases "length q < U")
    case True
    then obtain d where d: "U - length q = Suc d" by (cases "U - length q") auto
    then have d': "U - Suc (length q) = d" by simp
    show ?thesis using True Cons [of "q @ [b]"] d d' by simp
  next
    case False
    then show ?thesis using Cons [of q] by simp
  qed
qed

lemma fifo_drain:
  "map fst (fifo_run U q (replicate k Get)) =
     map (\<lambda>b. GetResult (Some b)) (take k q) @ replicate (k - length q) (GetResult None)"
proof (induction k arbitrary: q)
  case 0
  show ?case by simp
next
  case (Suc k)
  show ?case
  proof (cases q)
    case Nil
    then show ?thesis using Suc [of "[]"] by simp
  next
    case (Cons x xs)
    then show ?thesis using Suc [of xs] by simp
  qed
qed

lemma fifo_no_overflow:
  "length q + length (offered cs) \<le> U \<Longrightarrow>
     (PutResult (Inl BufferFull)) \<notin> fst ` set (fifo_run U q cs)
     \<and> prefix (delivered (fifo_run U q cs)) (q @ offered cs)"
proof (induction cs arbitrary: q)
  case Nil
  show ?case by simp
next
  case (Cons c cs)
  show ?case
  proof (cases c)
    case (Put b)
    then have "length (q @ [b]) + length (offered cs) \<le> U" using Cons.prems by simp
    from Cons.IH [OF this] show ?thesis using Put Cons.prems by simp
  next
    case Get
    show ?thesis
    proof (cases q)
      case Nil
      then show ?thesis using Get Cons.IH [of "[]"] Cons.prems by simp
    next
      case (Cons x xs)
      then have "length xs + length (offered cs) \<le> U" using Get Cons.prems by simp
      from Cons.IH [OF this] show ?thesis using Get Cons by simp
    qed
  qed
qed

text \<open>
  Claim C3. On a buffer made by \<^verbatim>\<open>rbuf_ini\<close> with capacity \<open>l\<close>, so with room for
  \<open>l - 1\<close> bytes: the buffer starts empty; every run of puts and gets, in any interleaving,
  gives call by call the results and the \<^verbatim>\<open>rbuf_empty\<close> answers of the first-in first-out
  queue of at most \<open>l - 1\<close> bytes, whose emptiness flag is true only while no stored byte is
  left undelivered. When the run offers no more than \<open>l - 1\<close> bytes, no put is rejected and
  the bytes the gets return are the offered bytes in their order, from the first on. Filling
  with any bytes \<open>bs\<close> and then draining with \<open>k\<close> gets accepts the first \<open>l - 1\<close> bytes,
  rejects exactly the bytes beyond them, returns the accepted bytes in order and then
  nothing.
\<close>

theorem rbuf_fifo:
  assumes "rbuf_ini l = Inr rb"
  shows "rbuf_empty rb
    \<and> rbuf_run rb cs = fifo_run (l - 1) [] cs
    \<and> (length (offered cs) \<le> l - 1 \<longrightarrow>
         PutResult (Inl BufferFull) \<notin> fst ` set (rbuf_run rb cs)
         \<and> prefix (delivered (rbuf_run rb cs)) (offered cs))
    \<and> map fst (rbuf_run rb (map Put bs @ replicate k Get)) =
         replicate (min (length bs) (l - 1)) (PutResult (Inr ()))
         @ replicate (length bs - (l - 1)) (PutResult (Inl BufferFull))
         @ map (\<lambda>b. GetResult (Some b)) (take k (take (l - 1) bs))
         @ replicate (k - min (length bs) (l - 1)) (GetResult None)"
proof -
  have wf: "rbuf_wf rb" and l: "rb_l rb = l" and c: "rbuf_contents rb = []" and e: "rbuf_empty rb"
    using rbuf_ini_wf [OF assms] by simp_all
  have run: "rbuf_run rb cs = fifo_run (l - 1) [] cs" for cs
    using rbuf_refines_fifo [OF wf, of cs] l c by simp
  have fill: "map fst (fifo_run (l - 1) [] (map Put bs @ replicate k Get)) =
         replicate (min (length bs) (l - 1)) (PutResult (Inr ()))
         @ replicate (length bs - (l - 1)) (PutResult (Inl BufferFull))
         @ map (\<lambda>b. GetResult (Some b)) (take k (take (l - 1) bs))
         @ replicate (k - min (length bs) (l - 1)) (GetResult None)"
    by (simp add: fifo_fill fifo_drain min.commute)
  show ?thesis
    unfolding run using e fill fifo_no_overflow [of "[]" cs "l - 1"] by simp
qed

text \<open>
  Capacity 5, room for 4 bytes: an interleaved run of three puts, and five puts followed by
  five gets, where only the fifth byte is lost.
\<close>

theorem rbuf_fifo_witness:
  "rbuf_ini 5 = Inr \<lparr>rb_l = 5, rb_w = 0, rb_r = 0, rb_data = [0, 0, 0, 0, 0]\<rparr>
   \<and> length (offered [Put 0x41, Get, Put 0x42, Put 0x43, Get, Get, Get]) \<le> 5 - 1
   \<and> rbuf_run \<lparr>rb_l = 5, rb_w = 0, rb_r = 0, rb_data = [0, 0, 0, 0, 0]\<rparr>
        [Put 0x41, Get, Put 0x42, Put 0x43, Get, Get, Get]
      = [(PutResult (Inr ()), False), (GetResult (Some 0x41), True),
         (PutResult (Inr ()), False), (PutResult (Inr ()), False),
         (GetResult (Some 0x42), False), (GetResult (Some 0x43), True), (GetResult None, True)]
   \<and> map fst (rbuf_run \<lparr>rb_l = 5, rb_w = 0, rb_r = 0, rb_data = [0, 0, 0, 0, 0]\<rparr>
        (map Put [1, 2, 3, 4, 5] @ replicate 5 Get))
      = [PutResult (Inr ()), PutResult (Inr ()), PutResult (Inr ()), PutResult (Inr ()),
         PutResult (Inl BufferFull),
         GetResult (Some 1), GetResult (Some 2), GetResult (Some 3), GetResult (Some 4),
         GetResult None]"
proof -
  have ini: "rbuf_ini 5 = Inr \<lparr>rb_l = 5, rb_w = 0, rb_r = 0, rb_data = [0, 0, 0, 0, 0]\<rparr>"
    by (simp add: rbuf_ini_def rbuf_reserve_def numeral_eq_Suc)
  show ?thesis
    using ini
      rbuf_fifo [OF ini, of "[Put 0x41, Get, Put 0x42, Put 0x43, Get, Get, Get]" "[1, 2, 3, 4, 5]" 5]
    by (simp add: numeral_eq_Suc)
qed

section \<open>Properties of the serial channel\<close>

lemma rbuf_put_cases:
  "rbuf_put rb b = (Inl BufferFull, rb) \<or> (\<exists>rb'. rbuf_put rb b = (Inr (), rb'))"
  by (simp add: rbuf_put_def)

text \<open>
  Claim C4. The receive interrupt leaves the inbound buffer as one \<^verbatim>\<open>rbuf_put\<close> of the
  received byte leaves it, and writes nothing to the transmit register. When the put reports
  Full, the handler appends the one diagnostic line to the output and the buffer is the
  same as before, so the byte is discarded. Otherwise the put has succeeded, no diagnostic
  is written, and the byte is the newest of the buffered bytes.
\<close>

theorem usart2_rx_one_put:
  "uart2_ibuf (USART2_RX_vect s b) = snd (rbuf_put (uart2_ibuf s) b)
   \<and> udr2_tx (USART2_RX_vect s b) = udr2_tx s
   \<and> (fst (rbuf_put (uart2_ibuf s) b) = Inl BufferFull \<longrightarrow>
        USART2_RX_vect s b = s\<lparr>stdout := stdout s @ [''USART2 rx Full!!!'']\<rparr>
        \<and> uart2_ibuf (USART2_RX_vect s b) = uart2_ibuf s)
   \<and> (fst (rbuf_put (uart2_ibuf s) b) \<noteq> Inl BufferFull \<longrightarrow>
        fst (rbuf_put (uart2_ibuf s) b) = Inr ()
        \<and> stdout (USART2_RX_vect s b) = stdout s
        \<and> (rbuf_wf (uart2_ibuf s) \<longrightarrow>
             rbuf_contents (uart2_ibuf (USART2_RX_vect s b)) = rbuf_contents (uart2_ibuf s) @ [b]))"
proof (cases "rbuf_put (uart2_ibuf s) b = (Inl BufferFull, uart2_ibuf s)")
  case True
  then show ?thesis by (simp add: USART2_RX_vect_def)
next
  case False
  then obtain rb' where p: "rbuf_put (uart2_ibuf s) b = (Inr (), rb')"
    using rbuf_put_cases [of "uart2_ibuf s" b] by blast
  have "rbuf_contents rb' = rbuf_contents (uart2_ibuf s) @ [b]" if wf: "rbuf_wf (uart2_ibuf s)"
  proof -
    have "rbuf_count (uart2_ibuf s) \<noteq> rb_l (uart2_ibuf s) - 1"
      using rbuf_put_full [OF wf, of b] p by auto
    from rbuf_put_stored [OF wf this, of b] show ?thesis using p by simp
  qed
  then show ?thesis using p by (simp add: USART2_RX_vect_def)
qed

text \<open>
  A buffer of capacity 3 holding two bytes is full and rejects a third; holding one byte it
  takes a second.
\<close>

theorem usart2_rx_one_put_witness:
  "fst (rbuf_put \<lparr>rb_l = 3, rb_w = 2, rb_r = 0, rb_data = [0x41, 0x42, 0]\<rparr> 0x43) = Inl BufferFull
   \<and> USART2_RX_vect
        \<lparr>uart2_ibuf = \<lparr>rb_l = 3, rb_w = 2, rb_r = 0, rb_data = [0x41, 0x42, 0]\<rparr>,
         stdout = [], udr2_tx = []\<rparr> 0x43
      = \<lparr>uart2_ibuf = \<lparr>rb_l = 3, rb_w = 2, rb_r = 0, rb_data = [0x41, 0x42, 0]\<rparr>,
         stdout = [''USART2 rx Full!!!''], udr2_tx = []\<rparr>
   \<and> fst (rbuf_put \<lparr>rb_l = 3, rb_w = 1, rb_r = 0, rb_data = [0x41, 0, 0]\<rparr> 0x43) \<noteq> Inl BufferFull
   \<and> rbuf_wf \<lparr>rb_l = 3, rb_w = 1, rb_r = 0, rb_data = [0x41, 0, 0]\<rparr>
   \<and> rbuf_contents (uart2_ibuf (USART2_RX_vect
        \<lparr>uart2_ibuf = \<lparr>rb_l = 3, rb_w = 1, rb_r = 0, rb_data = [0x41, 0, 0]\<rparr>,
         stdout = [], udr2_tx = []\<rparr> 0x43)) = [0x41, 0x43]
   \<and> stdout (USART2_RX_vect
        \<lparr>uart2_ibuf = \<lparr>rb_l = 3, rb_w = 1, rb_r = 0, rb_data = [0x41, 0, 0]\<rparr>,
         stdout = [], udr2_tx = []\<rparr> 0x43) = []"
proof -
  let ?full = "\<lparr>rb_l = 3, rb_w = 2, rb_r = 0, rb_data = [0x41, 0x42, 0 :: byte]\<rparr>"
  let ?room = "\<lparr>rb_l = 3, rb_w = 1, rb_r = 0, rb_data = [0x41, 0, 0 :: byte]\<rparr>"
  let ?s1 = "\<lparr>uart2_ibuf = ?full, stdout = [], udr2_tx = []\<rparr>"
  let ?s2 = "\<lparr>uart2_ibuf = ?room, stdout = [], udr2_tx = []\<rparr>"
  have h1: "fst (rbuf_put (uart2_ibuf ?s1) 0x43) = Inl BufferFull"
    by (simp add: rbuf_put_def rbuf_reserve_def)
  have h2: "fst (rbuf_put (uart2_ibuf ?s2) 0x43) \<noteq> Inl BufferFull"
    by (simp add: rbuf_put_def rbuf_reserve_def)
  have h3: "rbuf_wf (uart2_ibuf ?s2)"
    by (simp add: rbuf_wf_def)
  have old: "rbuf_contents (uart2_ibuf ?s2) = [0x41]"
    by (simp add: rbuf_contents_def rbuf_count_def)
  have c1: "USART2_RX_vect ?s1 0x43 = ?s1\<lparr>stdout := stdout ?s1 @ [''USART2 rx Full!!!'']\<rparr>"
    using usart2_rx_one_put [of ?s1 "0x43"] h1 by blast
  have c2: "rbuf_contents (uart2_ibuf (USART2_RX_vect ?s2 0x43)) = rbuf_contents (uart2_ibuf ?s2) @ [0x43]"
    and c3: "stdout (USART2_RX_vect ?s2 0x43) = stdout ?s2"
    using usart2_rx_one_put [of ?s2 "0x43"] h2 h3 by blast+
  have e1: "?s1\<lparr>stdout := stdout ?s1 @ [''USART2 rx Full!!!'']\<rparr>
      = \<lparr>uart2_ibuf = ?full, stdout = [''USART2 rx Full!!!''], udr2_tx = []\<rparr>"
    by simp
  show ?thesis
    using h1 h2 h3 c1 [unfolded e1] c2 [unfolded old] c3 by simp
qed

text \<open>
  Claim C6. \<^verbatim>\<open>uart2_getchar\<close> is a total function with no loop. It returns \<open>-1\<close> exactly when the
  inbound buffer is empty, and then changes nothing. Otherwise it returns the byte that
  \<^verbatim>\<open>rbuf_get\<close> returns and leaves the buffer as \<^verbatim>\<open>rbuf_get\<close> leaves it: the read position
  has advanced by one modulo the capacity, the byte returned is the oldest buffered byte,
  and the other buffered bytes remain in order.
\<close>

theorem uart2_getchar_nonblocking:
  "(fst (uart2_getchar s) = -1) = rbuf_empty (uart2_ibuf s)
   \<and> (rbuf_empty (uart2_ibuf s) \<longrightarrow> snd (uart2_getchar s) = s)
   \<and> (\<not> rbuf_empty (uart2_ibuf s) \<longrightarrow>
        snd (uart2_getchar s) = s\<lparr>uart2_ibuf := snd (rbuf_get (uart2_ibuf s))\<rparr>
        \<and> (\<exists>b. fst (rbuf_get (uart2_ibuf s)) = Some b \<and> fst (uart2_getchar s) = uint b)
        \<and> rb_r (uart2_ibuf (snd (uart2_getchar s)))
            = (rb_r (uart2_ibuf s) + 1) mod rb_l (uart2_ibuf s)
        \<and> (rbuf_wf (uart2_ibuf s) \<longrightarrow>
             fst (uart2_getchar s) = uint (hd (rbuf_contents (uart2_ibuf s)))
             \<and> rbuf_contents (uart2_ibuf (snd (uart2_getchar s)))
                 = tl (rbuf_contents (uart2_ibuf s))))"
proof (cases "rbuf_empty (uart2_ibuf s)")
  case True
  then show ?thesis by (simp add: uart2_getchar_def)
next
  case False
  let ?rb = "uart2_ibuf s"
  have g: "rbuf_get ?rb = (Some (rb_data ?rb ! rb_r ?rb), ?rb\<lparr>rb_r := (rb_r ?rb + 1) mod rb_l ?rb\<rparr>)"
    using False by (simp add: rbuf_get_def)
  have nonneg: "uint (rb_data ?rb ! rb_r ?rb) \<noteq> -1"
    using uint_ge_0 [of "rb_data ?rb ! rb_r ?rb"] by linarith
  have old: "rb_data ?rb ! rb_r ?rb = hd (rbuf_contents ?rb)
      \<and> rbuf_contents (?rb\<lparr>rb_r := (rb_r ?rb + 1) mod rb_l ?rb\<rparr>) = tl (rbuf_contents ?rb)"
    if wf: "rbuf_wf ?rb"
    using rbuf_get_oldest [OF wf False] g by auto
  show ?thesis using False g nonneg old by (simp add: uart2_getchar_def)
qed

text \<open>
  A drained buffer, and a buffer of capacity 3 whose two bytes lie around the end of the
  storage.
\<close>

theorem uart2_getchar_nonblocking_witness:
  "rbuf_empty \<lparr>rb_l = 3, rb_w = 1, rb_r = 1, rb_data = [0x41, 0, 0]\<rparr>
   \<and> fst (uart2_getchar \<lparr>uart2_ibuf = \<lparr>rb_l = 3, rb_w = 1, rb_r = 1, rb_data = [0x41, 0, 0]\<rparr>,
         stdout = [], udr2_tx = []\<rparr>) = -1
   \<and> \<not> rbuf_empty \<lparr>rb_l = 3, rb_w = 1, rb_r = 2, rb_data = [0x42, 0, 0x41]\<rparr>
   \<and> rbuf_wf \<lparr>rb_l = 3, rb_w = 1, rb_r = 2, rb_data = [0x42, 0, 0x41]\<rparr>
   \<and> rbuf_contents \<lparr>rb_l = 3, rb_w = 1, rb_r = 2, rb_data = [0x42, 0, 0x41]\<rparr> = [0x41, 0x42]
   \<and> fst (uart2_getchar \<lparr>uart2_ibuf = \<lparr>rb_l = 3, rb_w = 1, rb_r = 2, rb_data = [0x42, 0, 0x41]\<rparr>,
         stdout = [], udr2_tx = []\<rparr>) = 0x41
   \<and> rb_r (uart2_ibuf (snd (uart2_getchar
         \<lparr>uart2_ibuf = \<lparr>rb_l = 3, rb_w = 1, rb_r = 2, rb_data = [0x42, 0, 0x41]\<rparr>,
          stdout = [], udr2_tx = []\<rparr>))) = 0
   \<and> rbuf_contents (uart2_ibuf (snd (uart2_getchar
         \<lparr>uart2_ibuf = \<lparr>rb_l = 3, rb_w = 1, rb_r = 2, rb_data = [0x42, 0, 0x41]\<rparr>,
          stdout = [], udr2_tx = []\<rparr>))) = [0x42]"
proof -
  let ?drained = "\<lparr>rb_l = 3, rb_w = 1, rb_r = 1, rb_data = [0x41, 0, 0 :: byte]\<rparr>"
  let ?two = "\<lparr>rb_l = 3, rb_w = 1, rb_r = 2, rb_data = [0x42, 0, 0x41 :: byte]\<rparr>"
  let ?s1 = "\<lparr>uart2_ibuf = ?drained, stdout = [], udr2_tx = []\<rparr>"
  let ?s2 = "\<lparr>uart2_ibuf = ?two, stdout = [], udr2_tx = []\<rparr>"
  have h1: "rbuf_empty (uart2_ibuf ?s1)"
    by (simp add: rbuf_empty_def)
  have h2: "\<not> rbuf_empty (uart2_ibuf ?s2)"
    by (simp add: rbuf_empty_def)
  have h3: "rbuf_wf (uart2_ibuf ?s2)"
    by (simp add: rbuf_wf_def)
  have old: "rbuf_contents (uart2_ibuf ?s2) = [0x41, 0x42]"
    by (simp add: rbuf_contents_def rbuf_count_def)
  have c1: "fst (uart2_getchar ?s1) = -1"
    using uart2_getchar_nonblocking [of ?s1] h1 by blast
  have c2: "fst (uart2_getchar ?s2) = uint (hd (rbuf_contents (uart2_ibuf ?s2)))"
    and c3: "rb_r (uart2_ibuf (snd (uart2_getchar ?s2)))
               = (rb_r (uart2_ibuf ?s2) + 1) mod rb_l (uart2_ibuf ?s2)"
    and c4: "rbuf_contents (uart2_ibuf (snd (uart2_getchar ?s2))) = tl (rbuf_contents (uart2_ibuf ?s2))"
    using uart2_getchar_nonblocking [of ?s2] h2 h3 by blast+
  have e2: "uint (hd [0x41, 0x42 :: byte]) = 0x41" by simp
  have e3: "(rb_r (uart2_ibuf ?s2) + 1) mod rb_l (uart2_ibuf ?s2) = 0" by simp
  show ?thesis
    using h1 h2 h3 old c1 c2 [unfolded old e2] c3 [unfolded e3] c4 [unfolded old] by simp
qed

lemma wait_txready_found:
  "txready (n + k) \<Longrightarrow>
     \<exists>m. wait_txready txready n = Some m \<and> n \<le> m \<and> m \<le> n + k \<and> txready m
          \<and> (\<forall>j. n \<le> j \<and> j < m \<longrightarrow> \<not> txready j)"
proof (induction k arbitrary: n)
  case 0
  then show ?case by (subst wait_txready.simps) auto
next
  case (Suc k)
  show ?case
  proof (cases "txready n")
    case True
    then show ?thesis by (subst wait_txready.simps) auto
  next
    case False
    have "txready (Suc n + k)" using Suc.prems by simp
    from Suc.IH [OF this] obtain m where m: "wait_txready txready (Suc n) = Some m"
        "Suc n \<le> m" "m \<le> Suc n + k" "txready m" "\<forall>j. Suc n \<le> j \<and> j < m \<longrightarrow> \<not> txready j"
      by blast
    have "\<not> txready j" if "n \<le> j" "j < m" for j
      using that False m(5) by (cases "j = n") auto
    then show ?thesis using False m by (subst wait_txready.simps) auto
  qed
qed

lemma wait_txready_ready:
  assumes ret: "wait_txready txready n = Some m"
  shows "txready m"
proof (rule wait_txready.raw_induct [where P = "\<lambda>f n m. f m", OF _ ret])
  fix w f i y
  assume IH: "\<And>g j z. w g j = Some z \<Longrightarrow> g z"
    and eq: "(if \<not> f i then w f (Suc i) else Some i) = Some y"
  show "f y"
  proof (cases "f i")
    case True
    with eq show ?thesis by simp
  next
    case False
    with eq have "w f (Suc i) = Some y" by simp
    then show ?thesis by (rule IH)
  qed
qed

lemma wait_txready_never:
  assumes "\<forall>n. \<not> txready n"
  shows "wait_txready txready n = None"
proof (cases "wait_txready txready n")
  case None
  then show ?thesis .
next
  case (Some m)
  then show ?thesis using wait_txready_ready [of txready n m] assms by simp
qed

text \<open>
  Claim C5. When no read of the ready bit ever shows it set, \<^verbatim>\<open>uart2_putchar\<close> does not
  return. When some read shows it set, \<^verbatim>\<open>uart2_putchar\<close> returns 0 after writing the byte to
  the transmit register once, right after the first read that showed the bit set; all reads
  before it showed the bit clear. Whenever it returns, that is what it has done.
\<close>

theorem uart2_putchar_waits_for_txready:
  "((\<forall>n. \<not> txready n) \<longrightarrow> uart2_putchar txready c s = None)
   \<and> (txready k \<longrightarrow>
        (\<exists>m\<le>k. txready m \<and> (\<forall>j<m. \<not> txready j)
           \<and> uart2_putchar txready c s = Some (0, s\<lparr>udr2_tx := udr2_tx s @ [(m, c)]\<rparr>)))
   \<and> (uart2_putchar txready c s = Some (r, s') \<longrightarrow>
        (\<exists>m. txready m \<and> (\<forall>j<m. \<not> txready j)
           \<and> r = 0 \<and> s' = s\<lparr>udr2_tx := udr2_tx s @ [(m, c)]\<rparr>))"
proof -
  have never: "uart2_putchar txready c s = None" if "\<forall>n. \<not> txready n"
    using wait_txready_never [OF that, of 0] by (simp add: uart2_putchar_def)
  have found: "\<exists>m\<le>k. txready m \<and> (\<forall>j<m. \<not> txready j)
           \<and> uart2_putchar txready c s = Some (0, s\<lparr>udr2_tx := udr2_tx s @ [(m, c)]\<rparr>)"
    if "txready k" for k
    using wait_txready_found [of txready 0 k] that by (auto simp: uart2_putchar_def)
  have ret: "\<exists>m. txready m \<and> (\<forall>j<m. \<not> txready j)
           \<and> r = 0 \<and> s' = s\<lparr>udr2_tx := udr2_tx s @ [(m, c)]\<rparr>"
    if "uart2_putchar txready c s = Some (r, s')"
  proof -
    from that obtain m where w: "wait_txready txready 0 = Some m"
      by (auto simp: uart2_putchar_def split: option.splits)
    have "txready m" using wait_txready_ready [OF w] .
    from found [OF this] that show ?thesis by auto
  qed
  show ?thesis using never found ret by blast
qed

text \<open>
  A transport that is never ready, and one that is ready from the third read on.
\<close>

theorem uart2_putchar_waits_for_txready_witness:
  "(\<forall>n. \<not> (\<lambda>n::nat. False) n)
   \<and> uart2_putchar (\<lambda>n. False) 0x55
        \<lparr>uart2_ibuf = \<lparr>rb_l = 3, rb_w = 0, rb_r = 0, rb_data = [0, 0, 0]\<rparr>, stdout = [], udr2_tx = []\<rparr>
      = None
   \<and> (\<lambda>n::nat. 2 \<le> n) 2
   \<and> uart2_putchar (\<lambda>n. 2 \<le> n) 0x55
        \<lparr>uart2_ibuf = \<lparr>rb_l = 3, rb_w = 0, rb_r = 0, rb_data = [0, 0, 0]\<rparr>, stdout = [], udr2_tx = []\<rparr>
      = Some (0, \<lparr>uart2_ibuf = \<lparr>rb_l = 3, rb_w = 0, rb_r = 0, rb_data = [0, 0, 0]\<rparr>,
                  stdout = [], udr2_tx = [(2, 0x55)]\<rparr>)"
proof -
  let ?s = "\<lparr>uart2_ibuf = \<lparr>rb_l = 3, rb_w = 0, rb_r = 0, rb_data = [0, 0, 0 :: byte]\<rparr>,
             stdout = [], udr2_tx = []\<rparr>"
  have h1: "\<forall>n. \<not> (\<lambda>n::nat. False) n" by simp
  have h2: "(\<lambda>n::nat. 2 \<le> n) 2" by simp
  have c1: "uart2_putchar (\<lambda>n. False) 0x55 ?s = None"
    using uart2_putchar_waits_for_txready [where txready = "\<lambda>n. False" and c = "0x55" and s = ?s] h1
    by blast
  obtain m where m: "m \<le> 2" "2 \<le> m"
      "uart2_putchar (\<lambda>n. 2 \<le> n) 0x55 ?s = Some (0, ?s\<lparr>udr2_tx := udr2_tx ?s @ [(m, 0x55)]\<rparr>)"
    using uart2_putchar_waits_for_txready
            [where txready = "\<lambda>n. 2 \<le> n" and k = 2 and c = "0x55" and s = ?s] h2
    by blast
  have "m = 2" using m(1,2) by simp
  then have c2: "uart2_putchar (\<lambda>n. 2 \<le> n) 0x55 ?s
      = Some (0, \<lparr>uart2_ibuf = \<lparr>rb_l = 3, rb_w = 0, rb_r = 0, rb_data = [0, 0, 0]\<rparr>,
                  stdout = [], udr2_tx = [(2, 0x55)]\<rparr>)"
    using m(3) by simp
  show ?thesis using c1 c2 by simp
qed

end
